theory Spec2Isabelle
  imports Main "HOL-Library.AList" "HOL-Library.Word"
begin

section \<open>The buffer pool manager of UniBase (src/storage/buffer_pool_manager.cpp)\<close>

text \<open>
  The six public operations of \<open>BufferPoolManager\<close> and its two private helpers are
  embedded as functions that take the manager's state and return the result together
  with the new state. The members of the C++ class lose their trailing underscore
  (\<open>pages_\<close> is \<open>pages\<close>, \<open>pin_count_\<close> is \<open>pin_count\<close>, \<open>id_\<close> is \<open>page_id\<close>, after
  its accessor \<open>get_page_id\<close>). A \<open>Page*\<close> into \<open>pages_\<close> is the index of its frame.
  Every public operation holds \<open>latch_\<close> from entry to exit, so the operations are
  modelled as atomic steps of a sequential machine.
\<close>

subsection \<open>Data model\<close>

type_synonym byte = "8 word"
type_synonym frame_id_t = nat

record PageId =
  fd :: int
  page_no :: int

text \<open>
  Modelled from the spec: \<open>INVALID_PAGE_ID\<close> and \<open>PAGE_SIZE\<close> are constants of a header
  that is not part of the sources. Section 3 of the spec only calls them the invalid
  sentinel and the fixed page size. The theorems about the operations do not depend on
  either value; only the evaluation of the example states unfolds them.
\<close>

definition INVALID_PAGE_ID :: int where
  "INVALID_PAGE_ID = - 1"

definition PAGE_SIZE :: nat where
  "PAGE_SIZE = 4096"

text \<open>
  Modelled from the spec: class \<open>Page\<close> is declared in page.h, which is not part of the
  sources. Section 3 gives its members: the bytes, the identity, the dirty flag and the
  pin counter. The counter is a machine integer of 32 bits: \<open>+ 1\<close> and \<open>- 1\<close> wrap, as
  \<open>pin_count_++\<close> and \<open>pin_count_--\<close> do, and the operations only compare it with 0. It
  is read as a signed number by \<open>sint\<close> (the comment of \<open>unpin_page\<close> speaks of a counter
  that is 0 or less); \<open>0 < c\<close> on the type itself is the unsigned order and says that
  \<open>c\<close> is not 0. Section 3 of the spec calls the counter unsigned: on that reading
  (\<open>unat\<close>) the same wrap-around sits at \<open>2 ^ 32 - 1\<close>.
\<close>

record Page =
  page_id :: PageId
  data :: "byte list"
  is_dirty :: bool
  pin_count :: "32 word"

text \<open>
  Modelled from the spec: \<open>Page::reset_memory\<close> is defined in page.h. Section 4.7 says
  it resets the frame's content to empty; \<open>update_page\<close> clears \<open>is_dirty_\<close> and
  \<open>pin_count_\<close> itself next to the call, so only the bytes are touched here.
\<close>

definition reset_memory :: "Page \<Rightarrow> Page" where
  "reset_memory p = p\<lparr>data := replicate PAGE_SIZE 0\<rparr>"

text \<open>Modelled from the spec: a default-constructed \<open>Page\<close> (page.h) is empty, clean and unpinned.\<close>

definition empty_page :: Page where
  "empty_page =
     \<lparr>page_id = \<lparr>fd = 0, page_no = INVALID_PAGE_ID\<rparr>, data = replicate PAGE_SIZE 0,
      is_dirty = False, pin_count = 0\<rparr>"

subsection \<open>The Persistent Store\<close>

text \<open>
  Modelled from the spec: \<open>DiskManager\<close> is an external collaborator, given in section 6
  by its interface only. The store keeps the bytes last written at every location, one
  allocation counter per file, and a log of the calls it has received, which is what
  "performs no read" and "written exactly once" are stated about. Section 6 leaves the
  read of a location never written undefined; here it yields the empty page. An I/O
  failure is fatal for the running operation (section 7) and outside this model.
\<close>

datatype io_event =
    ReadPage int int
  | WritePage int int "byte list"
  | AllocatePage int int

record DiskManager =
  contents :: "int \<times> int \<rightharpoonup> byte list"
  next_page_no :: "int \<Rightarrow> int"
  io_log :: "io_event list"

definition write_page :: "DiskManager \<Rightarrow> int \<Rightarrow> int \<Rightarrow> byte list \<Rightarrow> DiskManager" where
  "write_page dm f n buf =
     dm\<lparr>contents := (contents dm)((f, n) \<mapsto> buf), io_log := io_log dm @ [WritePage f n buf]\<rparr>"

definition read_page :: "DiskManager \<Rightarrow> int \<Rightarrow> int \<Rightarrow> byte list \<times> DiskManager" where
  "read_page dm f n =
     ((case contents dm (f, n) of Some buf \<Rightarrow> buf | None \<Rightarrow> replicate PAGE_SIZE 0),
      dm\<lparr>io_log := io_log dm @ [ReadPage f n]\<rparr>)"

definition allocate_page :: "DiskManager \<Rightarrow> int \<Rightarrow> int \<times> DiskManager" where
  "allocate_page dm f =
     (next_page_no dm f,
      dm\<lparr>next_page_no := (next_page_no dm)(f := next_page_no dm f + 1),
         io_log := io_log dm @ [AllocatePage f (next_page_no dm f)]\<rparr>)"

definition new_disk :: DiskManager where
  "new_disk = \<lparr>contents = Map.empty, next_page_no = (\<lambda>_. 0), io_log = []\<rparr>"

subsection \<open>The Eviction Policy\<close>

text \<open>
  Modelled from the spec: the replacer is an external collaborator, given in section 6
  by its interface only: \<open>victim\<close> selects and removes one frame of the eligible set and
  returns none when the set is empty, \<open>pin\<close> removes a frame from eligibility, \<open>unpin\<close>
  adds it back. The eligible set is a list here and \<open>victim\<close> takes the frame that has
  been eligible longest; no theorem below depends on that choice of policy.
\<close>

record Replacer =
  eligible :: "frame_id_t list"

definition victim :: "Replacer \<Rightarrow> frame_id_t option \<times> Replacer" where
  "victim r =
     (case eligible r of
        [] \<Rightarrow> (None, r)
      | f # fs \<Rightarrow> (Some f, r\<lparr>eligible := fs\<rparr>))"

definition pin :: "Replacer \<Rightarrow> frame_id_t \<Rightarrow> Replacer" where
  "pin r f = r\<lparr>eligible := filter (\<lambda>g. g \<noteq> f) (eligible r)\<rparr>"

definition unpin :: "Replacer \<Rightarrow> frame_id_t \<Rightarrow> Replacer" where
  "unpin r f = (if f \<in> set (eligible r) then r else r\<lparr>eligible := eligible r @ [f]\<rparr>)"

subsection \<open>The manager's state\<close>

record BufferPoolManager =
  pages :: "Page list"
  page_table :: "(PageId \<times> frame_id_t) list"
  free_list :: "frame_id_t list"
  replacer :: Replacer
  disk_manager :: DiskManager

text \<open>
  \<open>page_table_\<close> is a \<open>std::unordered_map\<close>: \<open>find\<close> is \<open>map_of\<close>, \<open>erase\<close> is
  \<open>AList.delete\<close>, \<open>page_table_[k] = v\<close> is \<open>AList.update\<close>, and the order of the
  list stands for the order in which \<open>flush_all_pages\<close> iterates.

  Modelled from the spec: the constructor is in the header, which is not part of the
  sources. By section 3 the pool is allocated once at fixed capacity and every frame
  starts on the Free List.
\<close>

definition new_pool :: "nat \<Rightarrow> DiskManager \<Rightarrow> BufferPoolManager" where
  "new_pool pool_size dm =
     \<lparr>pages = replicate pool_size empty_page, page_table = [], free_list = [0..<pool_size],
      replacer = \<lparr>eligible = []\<rparr>, disk_manager = dm\<rparr>"

subsection \<open>Frame acquisition\<close>

definition find_victim_page :: "BufferPoolManager \<Rightarrow> frame_id_t option \<times> BufferPoolManager" where
  "find_victim_page s =
     (case free_list s of
        frame_id # rest \<Rightarrow> (Some frame_id, s\<lparr>free_list := rest\<rparr>)
      | [] \<Rightarrow>
          (case victim (replacer s) of
             (Some frame_id, r) \<Rightarrow>
               (Some frame_id,
                s\<lparr>replacer := r,
                  page_table := AList.delete (page_id (pages s ! frame_id)) (page_table s)\<rparr>)
           | (None, r) \<Rightarrow> (None, s\<lparr>replacer := r\<rparr>)))"

text \<open>
  \<open>update_page(page, new_page_id, new_frame_id)\<close>: \<open>page\<close> is the frame index \<open>pf\<close>.
\<close>

definition update_page :: "frame_id_t \<Rightarrow> PageId \<Rightarrow> frame_id_t \<Rightarrow> BufferPoolManager \<Rightarrow> BufferPoolManager" where
  "update_page pf new_page_id new_frame_id s =
     (let p = pages s ! pf;
          (dm, p0) = (if is_dirty p
                      then (write_page (disk_manager s) (fd (page_id p)) (page_no (page_id p)) (data p),
                            p\<lparr>is_dirty := False\<rparr>)
                      else (disk_manager s, p));
          p1 = p0\<lparr>pin_count := 0\<rparr>;
          pt = AList.update new_page_id new_frame_id (AList.delete (page_id p1) (page_table s));
          p2 = (reset_memory p1)\<lparr>page_id := new_page_id\<rparr>
      in s\<lparr>disk_manager := dm, page_table := pt, pages := (pages s)[pf := p2]\<rparr>)"

subsection \<open>The public operations\<close>

definition fetch_page :: "PageId \<Rightarrow> BufferPoolManager \<Rightarrow> frame_id_t option \<times> BufferPoolManager" where
  "fetch_page pid s =
     (case map_of (page_table s) pid of
        Some frame_id \<Rightarrow>
          (Some frame_id,
           s\<lparr>replacer := pin (replacer s) frame_id,
             pages := (pages s)[frame_id :=
               (pages s ! frame_id)\<lparr>pin_count := pin_count (pages s ! frame_id) + 1\<rparr>]\<rparr>)
      | None \<Rightarrow>
          (case find_victim_page s of
             (None, s1) \<Rightarrow> (None, s1)
           | (Some frame_id, s1) \<Rightarrow>
               (let s2 = (if is_dirty (pages s1 ! frame_id)
                          then update_page frame_id pid frame_id s1 else s1);
                    (buf, dm) = read_page (disk_manager s2) (fd pid) (page_no pid);
                    p = (pages s2 ! frame_id)\<lparr>data := buf, page_id := pid, pin_count := 1\<rparr>
                in (Some frame_id,
                    s2\<lparr>disk_manager := dm,
                       page_table := AList.update pid frame_id (page_table s2),
                       replacer := pin (replacer s2) frame_id,
                       pages := (pages s2)[frame_id := p]\<rparr>))))"

definition unpin_page :: "PageId \<Rightarrow> bool \<Rightarrow> BufferPoolManager \<Rightarrow> bool \<times> BufferPoolManager" where
  "unpin_page pid dirty s =
     (case map_of (page_table s) pid of
        None \<Rightarrow> (False, s)
      | Some frame_id \<Rightarrow>
          (let p = pages s ! frame_id in
           if pin_count p = 0 then (False, s)
           else
             (let p1 = p\<lparr>pin_count := pin_count p - 1\<rparr>;
                  r = (if pin_count p1 = 0 then unpin (replacer s) frame_id else replacer s);
                  p2 = (if dirty then p1\<lparr>is_dirty := True\<rparr> else p1)
              in (True, s\<lparr>replacer := r, pages := (pages s)[frame_id := p2]\<rparr>))))"

definition flush_page :: "PageId \<Rightarrow> BufferPoolManager \<Rightarrow> bool \<times> BufferPoolManager" where
  "flush_page pid s =
     (case map_of (page_table s) pid of
        None \<Rightarrow> (False, s)
      | Some frame_id \<Rightarrow>
          if page_no pid = INVALID_PAGE_ID then (False, s)
          else
            (let p = pages s ! frame_id;
                 dm = write_page (disk_manager s) (fd pid) (page_no pid) (data p)
             in (True, s\<lparr>disk_manager := dm, pages := (pages s)[frame_id := p\<lparr>is_dirty := False\<rparr>]\<rparr>)))"

text \<open>
  \<open>new_page(PageId* page_id)\<close>: the caller's \<open>PageId\<close> comes in with its \<open>fd\<close> set and
  goes out as the second component of the result.
\<close>

definition new_page :: "PageId \<Rightarrow> BufferPoolManager \<Rightarrow> frame_id_t option \<times> PageId \<times> BufferPoolManager" where
  "new_page pid s =
     (case find_victim_page s of
        (None, s1) \<Rightarrow> (None, pid, s1)
      | (Some frame_id, s1) \<Rightarrow>
          (let (n, dm1) = allocate_page (disk_manager s1) (fd pid);
               pid' = pid\<lparr>page_no := n\<rparr>;
               p = pages s1 ! frame_id;
               (dm2, p0) = (if is_dirty p
                            then (write_page dm1 (fd (page_id p)) (page_no (page_id p)) (data p),
                                  p\<lparr>is_dirty := False\<rparr>)
                            else (dm1, p));
               p1 = p0\<lparr>pin_count := 1, page_id := pid'\<rparr>
           in (Some frame_id, pid',
               s1\<lparr>disk_manager := dm2,
                  replacer := pin (replacer s1) frame_id,
                  pages := (pages s1)[frame_id := p1],
                  page_table := AList.update pid' frame_id (page_table s1)\<rparr>)))"

definition delete_page :: "PageId \<Rightarrow> BufferPoolManager \<Rightarrow> bool \<times> BufferPoolManager" where
  "delete_page pid s =
     (case map_of (page_table s) pid of
        None \<Rightarrow> (True, s)
      | Some frame_id \<Rightarrow>
          (let p = pages s ! frame_id in
           if pin_count p \<noteq> 0 then (False, s)
           else
             (let dm = (if is_dirty p
                        then write_page (disk_manager s) (fd (page_id p)) (page_no (page_id p)) (data p)
                        else disk_manager s)
              in (True,
                  s\<lparr>disk_manager := dm,
                    page_table := AList.delete pid (page_table s),
                    pages := (pages s)[frame_id := reset_memory p],
                    replacer := unpin (replacer s) frame_id,
                    free_list := free_list s @ [frame_id]\<rparr>))))"

text \<open>The loop of \<open>flush_all_pages\<close> over the entries of the page table.\<close>

fun flush_each :: "(PageId \<times> frame_id_t) list \<Rightarrow> BufferPoolManager \<Rightarrow> BufferPoolManager" where
  "flush_each [] s = s"
| "flush_each (pair # rest) s = flush_each rest (snd (flush_page (fst pair) s))"

definition flush_all_pages :: "int \<Rightarrow> BufferPoolManager \<Rightarrow> BufferPoolManager" where
  "flush_all_pages file s = flush_each (page_table s) s"

subsection \<open>Sequences of calls\<close>

text \<open>
  A client of the manager is a sequence of calls of the public operations. \<open>perform\<close>
  runs one call and keeps the state, \<open>run\<close> runs a sequence from left to right.
\<close>

datatype call =
    Fetch PageId
  | Unpin PageId bool
  | Flush PageId
  | New PageId
  | Delete PageId
  | FlushAll int

fun perform :: "call \<Rightarrow> BufferPoolManager \<Rightarrow> BufferPoolManager" where
  "perform (Fetch pid) s = snd (fetch_page pid s)"
| "perform (Unpin pid dirty) s = snd (unpin_page pid dirty s)"
| "perform (Flush pid) s = snd (flush_page pid s)"
| "perform (New pid) s = snd (snd (new_page pid s))"
| "perform (Delete pid) s = snd (delete_page pid s)"
| "perform (FlushAll file) s = flush_all_pages file s"

fun run :: "call list \<Rightarrow> BufferPoolManager \<Rightarrow> BufferPoolManager" where
  "run [] s = s"
| "run (c # cs) s = run cs (perform c s)"

subsection \<open>The invariant of the pool\<close>

text \<open>
  The page table has one entry per key and one key per frame.
\<close>

definition page_table_bijection :: "BufferPoolManager \<Rightarrow> bool" where
  "page_table_bijection s \<longleftrightarrow>
     distinct (map fst (page_table s)) \<and> distinct (map snd (page_table s))"

text \<open>
  The facts that hold of every state the operations can reach from a new pool: keys are
  unique; an entry points to a frame of the pool that carries the entry's key as its
  identity; the frames of the Free List are distinct, in the pool, not in the page table
  and unpinned; the frames the Eviction Policy may hand out are in the pool and
  unpinned.
\<close>

definition bpm_inv :: "BufferPoolManager \<Rightarrow> bool" where
  "bpm_inv s \<longleftrightarrow>
     distinct (map fst (page_table s))
     \<and> (\<forall>(pid, f) \<in> set (page_table s). f < length (pages s) \<and> page_id (pages s ! f) = pid)
     \<and> distinct (free_list s)
     \<and> (\<forall>f \<in> set (free_list s).
           f < length (pages s) \<and> f \<notin> snd ` set (page_table s) \<and> pin_count (pages s ! f) = 0)
     \<and> (\<forall>f \<in> set (eligible (replacer s)). f < length (pages s) \<and> pin_count (pages s ! f) = 0)"

subsection \<open>The writes of a flush of all pages\<close>

text \<open>
  The calls that the Persistent Store is expected to receive when the entries \<open>es\<close> of
  the page table are flushed in order: one write per entry whose page number is not the
  sentinel, with the bytes of the entry's frame.
\<close>

definition writes_of :: "BufferPoolManager \<Rightarrow> (PageId \<times> frame_id_t) list \<Rightarrow> io_event list" where
  "writes_of s es =
     map (\<lambda>e. WritePage (fd (fst e)) (page_no (fst e)) (data (pages s ! snd e)))
       (filter (\<lambda>e. page_no (fst e) \<noteq> INVALID_PAGE_ID) es)"

subsection \<open>Example states\<close>

text \<open>
  A pool of one frame over a store that holds \<open>stored_bytes\<close> at page \<open>(1, 0)\<close>, and
  the states it reaches when that page is fetched, unpinned as dirty and deleted. The
  state \<open>sentinel_dirty\<close> is a pool in which the page with the sentinel number is
  resident and dirty. In \<open>saturated\<close> the page has been fetched again and again until
  its pin counter holds the largest signed value, \<open>2 ^ 31 - 1\<close>.
\<close>

definition stored_bytes :: "byte list" where
  "stored_bytes = replicate PAGE_SIZE 7"

definition page_a :: PageId where
  "page_a = \<lparr>fd = 1, page_no = 0\<rparr>"

definition page_b :: PageId where
  "page_b = \<lparr>fd = 1, page_no = 1\<rparr>"

definition sentinel_page :: PageId where
  "sentinel_page = \<lparr>fd = 1, page_no = INVALID_PAGE_ID\<rparr>"

definition pool1 :: BufferPoolManager where
  "pool1 = new_pool 1 (new_disk\<lparr>contents := [(1, 0) \<mapsto> stored_bytes]\<rparr>)"

definition one_pinned :: BufferPoolManager where
  "one_pinned = snd (fetch_page page_a pool1)"

definition one_dirty :: BufferPoolManager where
  "one_dirty = snd (unpin_page page_a True one_pinned)"

definition one_deleted :: BufferPoolManager where
  "one_deleted = snd (delete_page page_a one_dirty)"

definition sentinel_dirty :: BufferPoolManager where
  "sentinel_dirty = snd (unpin_page sentinel_page True (snd (fetch_page sentinel_page pool1)))"


subsection \<open>Bounds on the pin counters\<close>


section \<open>Auxiliary facts\<close>

subsection \<open>Lists and association lists\<close>

lemma nth_upd_if: "g < length xs \<Longrightarrow> xs[f := q] ! g = (if f = g then q else xs ! g)"
  by (cases "f = g") simp_all

lemma set_alist_delete: "set (AList.delete k al) = {e \<in> set al. fst e \<noteq> k}"
  by (auto simp: AList.delete_eq)

lemma set_alist_update:
  "e \<in> set (AList.update k v al) \<Longrightarrow> e = (k, v) \<or> e \<in> set al"
  by (induction al) (auto split: if_splits)

subsection \<open>The invariant: its parts, and the steps that keep it\<close>

lemma inv_bijection: "bpm_inv s \<Longrightarrow> page_table_bijection s"
proof -
  assume inv: "bpm_inv s"
  let ?pt = "page_table s"
  have keys: "distinct (map fst ?pt)" using inv by (simp add: bpm_inv_def)
  have "map fst ?pt = map (\<lambda>f. page_id (pages s ! f)) (map snd ?pt)"
    using inv by (auto simp: bpm_inv_def)
  with keys have "distinct (map (\<lambda>f. page_id (pages s ! f)) (map snd ?pt))" by simp
  then have "distinct (map snd ?pt)" unfolding distinct_map[of _ "map snd ?pt"] by (rule conjunct1)
  with keys show ?thesis by (simp add: page_table_bijection_def)
qed

lemma bpm_invI:
  assumes "distinct (map fst (page_table s))"
    and "\<And>pid f. (pid, f) \<in> set (page_table s) \<Longrightarrow> f < length (pages s) \<and> page_id (pages s ! f) = pid"
    and "distinct (free_list s)"
    and "\<And>f. f \<in> set (free_list s) \<Longrightarrow>
           f < length (pages s) \<and> f \<notin> snd ` set (page_table s) \<and> pin_count (pages s ! f) = 0"
    and "\<And>f. f \<in> set (eligible (replacer s)) \<Longrightarrow> f < length (pages s) \<and> pin_count (pages s ! f) = 0"
  shows "bpm_inv s"
  unfolding bpm_inv_def using assms by blast

lemma inv_keys: "bpm_inv s \<Longrightarrow> distinct (map fst (page_table s))"
  by (simp add: bpm_inv_def)

lemma inv_entry:
  "bpm_inv s \<Longrightarrow> (pid, f) \<in> set (page_table s) \<Longrightarrow> f < length (pages s) \<and> page_id (pages s ! f) = pid"
  unfolding bpm_inv_def by blast

lemma inv_free_distinct: "bpm_inv s \<Longrightarrow> distinct (free_list s)"
  by (simp add: bpm_inv_def)

lemma inv_free:
  "bpm_inv s \<Longrightarrow> f \<in> set (free_list s) \<Longrightarrow>
     f < length (pages s) \<and> f \<notin> snd ` set (page_table s) \<and> pin_count (pages s ! f) = 0"
  unfolding bpm_inv_def by blast

lemma inv_eligible:
  "bpm_inv s \<Longrightarrow> f \<in> set (eligible (replacer s)) \<Longrightarrow> f < length (pages s) \<and> pin_count (pages s ! f) = 0"
  unfolding bpm_inv_def by blast

lemma inv_shrink:
  assumes inv: "bpm_inv s" and pg: "pages s' = pages s"
    and pt: "set (page_table s') \<subseteq> set (page_table s)" and "distinct (map fst (page_table s'))"
    and fl: "set (free_list s') \<subseteq> set (free_list s)" and "distinct (free_list s')"
    and el: "set (eligible (replacer s')) \<subseteq> set (eligible (replacer s))"
  shows "bpm_inv s'"
proof (rule bpm_invI)
  show "distinct (map fst (page_table s'))" by fact
  show "distinct (free_list s')" by fact
  show "f < length (pages s') \<and> page_id (pages s' ! f) = pid" if "(pid, f) \<in> set (page_table s')" for pid f
    using that pt inv_entry[OF inv, of pid f] pg by auto
  show "f < length (pages s') \<and> f \<notin> snd ` set (page_table s') \<and> pin_count (pages s' ! f) = 0"
    if "f \<in> set (free_list s')" for f
    using that fl inv_free[OF inv, of f] pg pt by auto
  show "f < length (pages s') \<and> pin_count (pages s' ! f) = 0" if "f \<in> set (eligible (replacer s'))" for f
    using that el inv_eligible[OF inv, of f] pg by auto
qed


lemma inv_install:
  assumes inv: "bpm_inv s" and fr: "f < length (pages s)" and nf: "f \<notin> set (free_list s)"
    and own: "\<And>k. (k, f) \<in> set (page_table s) \<Longrightarrow> k = pid"
    and pid: "page_id p = pid"
    and pg: "pages s' = (pages s)[f := p]"
    and pt: "page_table s' = AList.update pid f (page_table s)"
    and fl: "free_list s' = free_list s"
    and el: "\<And>g. g \<in> set (eligible (replacer s')) \<Longrightarrow> g \<noteq> f \<Longrightarrow> g \<in> set (eligible (replacer s))"
    and elf: "f \<in> set (eligible (replacer s')) \<Longrightarrow> pin_count p = 0"
  shows "bpm_inv s'"
proof (rule bpm_invI)
  show "distinct (map fst (page_table s'))"
    using inv_keys[OF inv] by (simp add: pt distinct_update)
  show "distinct (free_list s')" using inv_free_distinct[OF inv] by (simp add: fl)
  show "g < length (pages s') \<and> page_id (pages s' ! g) = k" if "(k, g) \<in> set (page_table s')" for k g
  proof -
    from that have "(k, g) = (pid, f) \<or> (k, g) \<in> set (page_table s)"
      unfolding pt by (rule set_alist_update)
    then show ?thesis
    proof
      assume "(k, g) = (pid, f)"
      then show ?thesis using fr pid by (simp add: pg)
    next
      assume old: "(k, g) \<in> set (page_table s)"
      show ?thesis
      proof (cases "g = f")
        case True
        with old own have "k = pid" by simp
        with True fr pid show ?thesis by (simp add: pg)
      next
        case False
        with inv_entry[OF inv old] show ?thesis by (simp add: pg)
      qed
    qed
  qed
  show "g < length (pages s') \<and> g \<notin> snd ` set (page_table s') \<and> pin_count (pages s' ! g) = 0"
    if "g \<in> set (free_list s')" for g
  proof -
    from that have g: "g \<in> set (free_list s)" by (simp add: fl)
    with nf have ne: "g \<noteq> f" by auto
    have "g \<notin> snd ` set (page_table s')"
    proof
      assume "g \<in> snd ` set (page_table s')"
      then obtain k where "(k, g) \<in> set (page_table s')" by auto
      then have "(k, g) = (pid, f) \<or> (k, g) \<in> set (page_table s)"
        unfolding pt by (rule set_alist_update)
      with ne inv_free[OF inv g] show False by force
    qed
    with inv_free[OF inv g] ne show ?thesis by (simp add: pg)
  qed
  show "g < length (pages s') \<and> pin_count (pages s' ! g) = 0" if "g \<in> set (eligible (replacer s'))" for g
  proof (cases "g = f")
    case True
    with that elf fr show ?thesis by (simp add: pg)
  next
    case False
    from that el False have "g \<in> set (eligible (replacer s))" by auto
    with inv_eligible[OF inv this] False show ?thesis by (simp add: pg)
  qed
qed


lemma inv_touch:
  assumes inv: "bpm_inv s" and res: "map_of (page_table s) pid = Some f"
    and pid: "page_id p = page_id (pages s ! f)"
    and pg: "pages s' = (pages s)[f := p]"
    and pt: "page_table s' = page_table s"
    and fl: "free_list s' = free_list s"
    and el: "\<And>g. g \<in> set (eligible (replacer s')) \<Longrightarrow> g \<noteq> f \<Longrightarrow> g \<in> set (eligible (replacer s))"
    and elf: "f \<in> set (eligible (replacer s')) \<Longrightarrow> pin_count p = 0"
  shows "bpm_inv s'"
proof (rule inv_install[OF inv _ _ _ _ pg _ fl el elf])
  from res have mem: "(pid, f) \<in> set (page_table s)" by (rule map_of_SomeD)
  from inv_entry[OF inv mem] show "f < length (pages s)" by simp
  from inv_entry[OF inv mem] pid show "page_id p = pid" by simp
  show "f \<notin> set (free_list s)"
  proof
    assume "f \<in> set (free_list s)"
    from inv_free[OF inv this] mem show False by force
  qed
  show "k = pid" if "(k, f) \<in> set (page_table s)" for k
    using inv_entry[OF inv that] inv_entry[OF inv mem] by simp
  show "page_table s' = AList.update pid f (page_table s)"
    using res by (simp add: pt update_triv)
qed

lemma inv_release:
  assumes inv: "bpm_inv s" and res: "map_of (page_table s) pid = Some f"
    and pc: "pin_count (pages s ! f) = 0"
    and pg: "pages s' = pages s"
    and pt: "page_table s' = AList.delete pid (page_table s)"
    and fl: "free_list s' = free_list s @ [f]"
    and el: "replacer s' = replacer s"
  shows "bpm_inv s'"
proof (rule bpm_invI)
  from res have mem: "(pid, f) \<in> set (page_table s)" by (rule map_of_SomeD)
  have sub: "set (page_table s') \<subseteq> set (page_table s)" by (auto simp: pt set_alist_delete)
  have nf: "f \<notin> set (free_list s)"
  proof
    assume "f \<in> set (free_list s)"
    from inv_free[OF inv this] mem show False by force
  qed
  have gone: "f \<notin> snd ` set (page_table s')"
  proof
    assume "f \<in> snd ` set (page_table s')"
    then obtain k where k: "(k, f) \<in> set (page_table s)" "k \<noteq> pid"
      by (auto simp: pt set_alist_delete)
    with inv_entry[OF inv k(1)] inv_entry[OF inv mem] show False by simp
  qed
  show "distinct (map fst (page_table s'))"
    using inv_keys[OF inv] by (simp add: pt distinct_delete)
  show "distinct (free_list s')" using inv_free_distinct[OF inv] nf by (simp add: fl)
  show "g < length (pages s') \<and> page_id (pages s' ! g) = k" if "(k, g) \<in> set (page_table s')" for k g
    using that sub inv_entry[OF inv, of k g] by (auto simp: pg)
  show "g < length (pages s') \<and> g \<notin> snd ` set (page_table s') \<and> pin_count (pages s' ! g) = 0"
    if "g \<in> set (free_list s')" for g
  proof (cases "g = f")
    case True
    with gone pc inv_entry[OF inv mem] show ?thesis by (simp add: pg)
  next
    case False
    with that have "g \<in> set (free_list s)" by (simp add: fl)
    from inv_free[OF inv this] sub show ?thesis by (auto simp: pg)
  qed
  show "g < length (pages s') \<and> pin_count (pages s' ! g) = 0" if "g \<in> set (eligible (replacer s'))" for g
    using that inv_eligible[OF inv, of g] by (simp add: pg el)
qed

subsection \<open>Every operation keeps the invariant\<close>

lemma find_victim_page_None:
  "fst (find_victim_page s) = None \<longleftrightarrow> free_list s = [] \<and> eligible (replacer s) = []"
  by (auto simp: find_victim_page_def victim_def split: list.splits)

lemma find_victim_page_fail:
  "fst (find_victim_page s) = None \<Longrightarrow> find_victim_page s = (None, s)"
  by (auto simp: find_victim_page_def victim_def split: list.splits)

lemma find_victim_page_Some:
  assumes inv: "bpm_inv s" and fv: "find_victim_page s = (Some f, s1)"
  shows "bpm_inv s1" and "f < length (pages s1)" and "f \<notin> set (free_list s1)"
    and "\<And>k. (k, f) \<notin> set (page_table s1)" and "pages s1 = pages s"
    and "pin_count (pages s ! f) = 0" and "disk_manager s1 = disk_manager s"
    and "set (eligible (replacer s1)) \<subseteq> set (eligible (replacer s))"
    and "free_list s1 = tl (free_list s)"
proof -
  have "bpm_inv s1 \<and> f < length (pages s1) \<and> f \<notin> set (free_list s1)
     \<and> (\<forall>k. (k, f) \<notin> set (page_table s1)) \<and> pages s1 = pages s
     \<and> pin_count (pages s ! f) = 0 \<and> disk_manager s1 = disk_manager s
     \<and> set (eligible (replacer s1)) \<subseteq> set (eligible (replacer s))
     \<and> free_list s1 = tl (free_list s)" (is ?goal)
  proof (cases "free_list s")
    case (Cons g rest)
    with fv have f: "g = f" and s1: "s1 = s\<lparr>free_list := rest\<rparr>"
      by (simp_all add: find_victim_page_def)
    have mem: "f \<in> set (free_list s)" using Cons f by simp
    have d: "distinct (f # rest)" using inv_free_distinct[OF inv] Cons f by simp
    have "bpm_inv s1"
      by (rule inv_shrink[OF inv]) (use d inv_keys[OF inv] Cons in \<open>auto simp: s1\<close>)
    moreover have "\<forall>k. (k, f) \<notin> set (page_table s1)"
      using inv_free[OF inv mem] by (force simp: s1)
    ultimately show ?thesis using inv_free[OF inv mem] d Cons by (simp add: s1)
  next
    case Nil
    with fv obtain fs where el: "eligible (replacer s) = f # fs"
      and s1: "s1 = s\<lparr>replacer := (replacer s)\<lparr>eligible := fs\<rparr>,
                      page_table := AList.delete (page_id (pages s ! f)) (page_table s)\<rparr>"
      by (auto simp: find_victim_page_def victim_def split: list.splits)
    have mem: "f \<in> set (eligible (replacer s))" using el by simp
    have "bpm_inv s1"
      by (rule inv_shrink[OF inv])
         (use inv_keys[OF inv] Nil el in \<open>auto simp: s1 set_alist_delete distinct_delete\<close>)
    moreover have "\<forall>k. (k, f) \<notin> set (page_table s1)"
    proof (intro allI notI)
      fix k assume "(k, f) \<in> set (page_table s1)"
      then have k: "(k, f) \<in> set (page_table s)" "k \<noteq> page_id (pages s ! f)"
        by (auto simp: s1 set_alist_delete)
      with inv_entry[OF inv k(1)] show False by simp
    qed
    ultimately show ?thesis using inv_eligible[OF inv mem] Nil el by (auto simp: s1)
  qed
  then show "bpm_inv s1" and "f < length (pages s1)" and "f \<notin> set (free_list s1)"
    and "\<And>k. (k, f) \<notin> set (page_table s1)" and "pages s1 = pages s"
    and "pin_count (pages s ! f) = 0" and "disk_manager s1 = disk_manager s"
    and "set (eligible (replacer s1)) \<subseteq> set (eligible (replacer s))"
    and "free_list s1 = tl (free_list s)"
    by blast+
qed

lemma update_page_fields:
  "page_table (update_page pf pid nf s) =
     AList.update pid nf (AList.delete (page_id (pages s ! pf)) (page_table s))"
  "free_list (update_page pf pid nf s) = free_list s"
  "replacer (update_page pf pid nf s) = replacer s"
  "pages (update_page pf pid nf s) =
     (pages s)[pf := \<lparr>page_id = pid, data = replicate PAGE_SIZE 0,
                     is_dirty = False, pin_count = 0\<rparr>]"
  "disk_manager (update_page pf pid nf s) =
     (if is_dirty (pages s ! pf)
      then write_page (disk_manager s) (fd (page_id (pages s ! pf))) (page_no (page_id (pages s ! pf)))
             (data (pages s ! pf))
      else disk_manager s)"
  by (cases "pages s ! pf"; simp add: update_page_def Let_def reset_memory_def split_def)+

lemma update_page_inv:
  assumes inv: "bpm_inv s" and fr: "f < length (pages s)" and nf: "f \<notin> set (free_list s)"
    and own: "\<And>k. (k, f) \<notin> set (page_table s)"
  shows "bpm_inv (update_page f pid f s)"
proof -
  let ?old = "page_id (pages s ! f)"
  let ?sA = "s\<lparr>page_table := AList.delete ?old (page_table s)\<rparr>"
  have invA: "bpm_inv ?sA"
    by (rule inv_shrink[OF inv])
       (use inv_keys[OF inv] inv_free_distinct[OF inv] in \<open>auto simp: set_alist_delete distinct_delete\<close>)
  show ?thesis
  proof (rule inv_install[OF invA, where f = f and pid = pid])
    show "f < length (pages ?sA)" using fr by simp
    show "f \<notin> set (free_list ?sA)" using nf by simp
    show "k = pid" if "(k, f) \<in> set (page_table ?sA)" for k
      using that own by (auto simp: set_alist_delete)
    show "pages (update_page f pid f s) =
        (pages ?sA)[f := \<lparr>page_id = pid, data = replicate PAGE_SIZE 0,
                        is_dirty = False, pin_count = 0\<rparr>]"
      by (simp add: update_page_fields)
    show "page_table (update_page f pid f s) = AList.update pid f (page_table ?sA)"
      by (simp add: update_page_fields)
  qed (simp_all add: update_page_fields)
qed

lemma resident_in_range:
  "bpm_inv s \<Longrightarrow> map_of (page_table s) pid = Some f \<Longrightarrow> f < length (pages s)"
  using inv_entry map_of_SomeD by fastforce

lemma fetch_page_inv:
  assumes inv: "bpm_inv s"
  shows "bpm_inv (snd (fetch_page pid s))"
proof (cases "map_of (page_table s) pid")
  case (Some f)
  have fr: "f < length (pages s)" by (rule resident_in_range[OF inv Some])
  show ?thesis
    by (rule inv_touch[OF inv Some, where p = "(pages s ! f)\<lparr>pin_count := pin_count (pages s ! f) + 1\<rparr>"])
       (simp_all add: fetch_page_def Some pin_def)
next
  case None
  obtain r s1 where fv: "find_victim_page s = (r, s1)" by (cases "find_victim_page s")
  show ?thesis
  proof (cases r)
    case None': None
    with fv find_victim_page_fail[of s] have "s1 = s" by simp
    with inv show ?thesis by (simp add: fetch_page_def None fv None')
  next
    case (Some f)
    note fv' = fv[unfolded Some]
    note v = find_victim_page_Some[OF inv fv']
    define s2 where "s2 = (if is_dirty (pages s1 ! f) then update_page f pid f s1 else s1)"
    have inv2: "bpm_inv s2"
      unfolding s2_def using v(1) update_page_inv[OF v(1) v(2) v(3) v(4)] by simp
    have fr2: "f < length (pages s2)" unfolding s2_def using v(2) by (simp add: update_page_fields)
    have nf2: "f \<notin> set (free_list s2)" unfolding s2_def using v(3) by (simp add: update_page_fields)
    have own2: "k = pid" if "(k, f) \<in> set (page_table s2)" for k
    proof (cases "is_dirty (pages s1 ! f)")
      case True
      with that have "(k, f) \<in> set (AList.update pid f (AList.delete (page_id (pages s1 ! f)) (page_table s1)))"
        by (simp add: s2_def update_page_fields)
      from set_alist_update[OF this] v(4) show ?thesis by (auto simp: set_alist_delete)
    next
      case False
      with that v(4) show ?thesis by (simp add: s2_def)
    qed
    let ?p = "(pages s2 ! f)\<lparr>data := fst (read_page (disk_manager s2) (fd pid) (page_no pid)),
                page_id := pid, pin_count := 1\<rparr>"
    have res: "snd (fetch_page pid s) =
        s2\<lparr>disk_manager := snd (read_page (disk_manager s2) (fd pid) (page_no pid)),
           page_table := AList.update pid f (page_table s2),
           replacer := pin (replacer s2) f,
           pages := (pages s2)[f := ?p]\<rparr>"
      by (simp add: fetch_page_def None fv' s2_def Let_def split_def)
    show ?thesis
      by (rule inv_install[OF inv2 fr2 nf2 own2, where p = ?p])
         (simp_all add: res pin_def)
  qed
qed

lemma unpin_page_inv:
  assumes inv: "bpm_inv s"
  shows "bpm_inv (snd (unpin_page pid dirty s))"
proof (cases "map_of (page_table s) pid")
  case None
  with inv show ?thesis by (simp add: unpin_page_def)
next
  case (Some f)
  have fr: "f < length (pages s)" by (rule resident_in_range[OF inv Some])
  show ?thesis
  proof (cases "pin_count (pages s ! f) = 0")
    case True
    with inv show ?thesis by (simp add: unpin_page_def Some)
  next
    case False
    let ?p1 = "(pages s ! f)\<lparr>pin_count := pin_count (pages s ! f) - 1\<rparr>"
    let ?p = "if dirty then ?p1\<lparr>is_dirty := True\<rparr> else ?p1"
    show ?thesis
      by (rule inv_touch[OF inv Some, where p = ?p])
         (use False inv_eligible[OF inv, of f] in
            \<open>auto simp: unpin_page_def Some Let_def unpin_def split: if_splits\<close>)
  qed
qed

lemma flush_page_inv:
  assumes inv: "bpm_inv s"
  shows "bpm_inv (snd (flush_page pid s))"
proof (cases "map_of (page_table s) pid")
  case None
  with inv show ?thesis by (simp add: flush_page_def)
next
  case (Some f)
  have fr: "f < length (pages s)" by (rule resident_in_range[OF inv Some])
  show ?thesis
  proof (cases "page_no pid = INVALID_PAGE_ID")
    case True
    with inv show ?thesis by (simp add: flush_page_def Some)
  next
    case False
    show ?thesis
      by (rule inv_touch[OF inv Some, where p = "(pages s ! f)\<lparr>is_dirty := False\<rparr>"])
         (use False inv_eligible[OF inv] in \<open>auto simp: flush_page_def Some Let_def\<close>)
  qed
qed

lemma flush_each_inv: "bpm_inv s \<Longrightarrow> bpm_inv (flush_each entries s)"
  by (induction entries arbitrary: s) (simp_all add: flush_page_inv)

lemma flush_all_pages_inv: "bpm_inv s \<Longrightarrow> bpm_inv (flush_all_pages file s)"
  by (simp add: flush_all_pages_def flush_each_inv)

lemma new_page_inv:
  assumes inv: "bpm_inv s"
  shows "bpm_inv (snd (snd (new_page pid s)))"
proof -
  obtain r s1 where fv: "find_victim_page s = (r, s1)" by (cases "find_victim_page s")
  show ?thesis
  proof (cases r)
    case None
    with fv find_victim_page_fail[of s] have "s1 = s" by simp
    with inv show ?thesis by (simp add: new_page_def fv None)
  next
    case (Some f)
    note fv' = fv[unfolded Some]
    note v = find_victim_page_Some[OF inv fv']
    let ?n = "fst (allocate_page (disk_manager s1) (fd pid))"
    let ?pid = "pid\<lparr>page_no := ?n\<rparr>"
    let ?p0 = "if is_dirty (pages s1 ! f) then (pages s1 ! f)\<lparr>is_dirty := False\<rparr> else pages s1 ! f"
    let ?p = "?p0\<lparr>pin_count := 1, page_id := ?pid\<rparr>"
    have pg: "pages (snd (snd (new_page pid s))) = (pages s1)[f := ?p]"
      and pt: "page_table (snd (snd (new_page pid s))) = AList.update ?pid f (page_table s1)"
      and fl: "free_list (snd (snd (new_page pid s))) = free_list s1"
      and rp: "replacer (snd (snd (new_page pid s))) = pin (replacer s1) f"
      by (simp_all add: new_page_def fv' Let_def split_def)
    show ?thesis
      by (rule inv_install[OF v(1) v(2) v(3) _ _ pg pt fl])
         (use v(4) in \<open>auto simp: rp pin_def\<close>)
  qed
qed

lemma delete_page_inv:
  assumes inv: "bpm_inv s"
  shows "bpm_inv (snd (delete_page pid s))"
proof (cases "map_of (page_table s) pid")
  case None
  with inv show ?thesis by (simp add: delete_page_def)
next
  case (Some f)
  have fr: "f < length (pages s)" by (rule resident_in_range[OF inv Some])
  show ?thesis
  proof (cases "pin_count (pages s ! f) = 0")
    case False
    with inv show ?thesis by (simp add: delete_page_def Some)
  next
    case True
    let ?sA = "s\<lparr>pages := (pages s)[f := reset_memory (pages s ! f)], replacer := unpin (replacer s) f\<rparr>"
    have invA: "bpm_inv ?sA"
      by (rule inv_touch[OF inv Some, where p = "reset_memory (pages s ! f)"])
         (use True in \<open>auto simp: reset_memory_def unpin_def split: if_splits\<close>)
    show ?thesis
      by (rule inv_release[OF invA, where f = f and pid = pid])
         (use True fr Some in \<open>auto simp: delete_page_def Let_def reset_memory_def\<close>)
  qed
qed

lemma perform_inv: "bpm_inv s \<Longrightarrow> bpm_inv (perform c s)"
  by (cases c)
     (simp_all add: fetch_page_inv unpin_page_inv flush_page_inv new_page_inv delete_page_inv
        flush_all_pages_inv)

lemma run_inv: "bpm_inv s \<Longrightarrow> bpm_inv (run cs s)"
  by (induction cs arbitrary: s) (simp_all add: perform_inv)

lemma new_pool_inv: "bpm_inv (new_pool n dm)"
  by (auto simp: bpm_inv_def new_pool_def empty_page_def)

subsection \<open>The example states, evaluated\<close>

lemma upt1: "[0..<1] = [0]" by (simp add: upt_rec)

lemma pool1_eval:
  "pool1 = \<lparr>pages = [empty_page], page_table = [], free_list = [0], replacer = \<lparr>eligible = []\<rparr>,
      disk_manager = \<lparr>contents = [(1, 0) \<mapsto> stored_bytes], next_page_no = \<lambda>_. 0, io_log = []\<rparr>\<rparr>"
  by (simp add: pool1_def new_pool_def new_disk_def upt1)

lemma one_pinned_eval:
  "one_pinned =
     \<lparr>pages = [\<lparr>page_id = page_a, data = stored_bytes, is_dirty = False, pin_count = 1\<rparr>],
      page_table = [(page_a, 0)], free_list = [], replacer = \<lparr>eligible = []\<rparr>,
      disk_manager = \<lparr>contents = [(1, 0) \<mapsto> stored_bytes], next_page_no = \<lambda>_. 0,
                      io_log = [ReadPage 1 0]\<rparr>\<rparr>"
  by (simp add: one_pinned_def pool1_eval page_a_def fetch_page_def find_victim_page_def
      empty_page_def read_page_def pin_def)

lemma one_dirty_eval:
  "one_dirty =
     \<lparr>pages = [\<lparr>page_id = page_a, data = stored_bytes, is_dirty = True, pin_count = 0\<rparr>],
      page_table = [(page_a, 0)], free_list = [], replacer = \<lparr>eligible = [0]\<rparr>,
      disk_manager = \<lparr>contents = [(1, 0) \<mapsto> stored_bytes], next_page_no = \<lambda>_. 0,
                      io_log = [ReadPage 1 0]\<rparr>\<rparr>"
  by (simp add: one_dirty_def one_pinned_eval unpin_page_def unpin_def)

lemma one_deleted_eval:
  "one_deleted =
     \<lparr>pages = [\<lparr>page_id = page_a, data = replicate PAGE_SIZE 0, is_dirty = True, pin_count = 0\<rparr>],
      page_table = [], free_list = [0], replacer = \<lparr>eligible = [0]\<rparr>,
      disk_manager = \<lparr>contents = [(1, 0) \<mapsto> stored_bytes], next_page_no = \<lambda>_. 0,
                      io_log = [ReadPage 1 0, WritePage 1 0 stored_bytes]\<rparr>\<rparr>"
  by (simp add: one_deleted_def one_dirty_eval delete_page_def unpin_def write_page_def
      reset_memory_def page_a_def)

lemma sentinel_dirty_eval:
  "sentinel_dirty =
     \<lparr>pages = [\<lparr>page_id = sentinel_page, data = replicate PAGE_SIZE 0, is_dirty = True, pin_count = 0\<rparr>],
      page_table = [(sentinel_page, 0)], free_list = [], replacer = \<lparr>eligible = [0]\<rparr>,
      disk_manager = \<lparr>contents = [(1, 0) \<mapsto> stored_bytes], next_page_no = \<lambda>_. 0,
                      io_log = [ReadPage 1 INVALID_PAGE_ID]\<rparr>\<rparr>"
  by (simp add: sentinel_dirty_def pool1_eval sentinel_page_def fetch_page_def find_victim_page_def
      empty_page_def read_page_def pin_def unpin_page_def unpin_def INVALID_PAGE_ID_def)

lemma pages_differ: "page_a \<noteq> page_b" "page_b \<noteq> page_a"
  by (simp_all add: page_a_def page_b_def)

lemma one_pinned_inv: "bpm_inv one_pinned"
  by (simp add: bpm_inv_def one_pinned_eval)

lemma one_dirty_inv: "bpm_inv one_dirty"
  by (simp add: bpm_inv_def one_dirty_eval)

subsection \<open>The pin counter as a signed 32-bit number\<close>






subsection \<open>Pin counters stay within bounds along short runs\<close>















section \<open>The claims\<close>








text \<open>
  Claim C5. For a resident page whose pin counter is not 0 (which is what \<open>0 < c\<close> says
  on the counter's type, and what every positive count satisfies), \<open>unpin_page pid True\<close>
  leaves the frame dirty and \<open>unpin_page pid False\<close> leaves the dirty flag as it was.
  No call of \<open>unpin_page\<close> clears the dirty flag of any frame.
\<close>

theorem unpin_page_dirty_monotonic:
  "(map_of (page_table s) pid = Some f \<and> f < length (pages s) \<and> 0 < pin_count (pages s ! f) \<longrightarrow>
      is_dirty (pages (snd (unpin_page pid True s)) ! f)
      \<and> is_dirty (pages (snd (unpin_page pid False s)) ! f) = is_dirty (pages s ! f))
   \<and> (g < length (pages s) \<and> is_dirty (pages s ! g) \<longrightarrow>
        is_dirty (pages (snd (unpin_page pid dirty s)) ! g))"
  by (auto simp: unpin_page_def Let_def nth_upd_if split: option.splits)

theorem unpin_page_dirty_monotonic_witness:
  "map_of (page_table one_pinned) page_a = Some 0 \<and> 0 < length (pages one_pinned)
   \<and> 0 < pin_count (pages one_pinned ! 0)
   \<and> \<not> is_dirty (pages one_pinned ! 0)
   \<and> is_dirty (pages (snd (unpin_page page_a True one_pinned)) ! 0)
   \<and> \<not> is_dirty (pages (snd (unpin_page page_a False one_pinned)) ! 0)
   \<and> is_dirty (pages one_dirty ! 0)
   \<and> is_dirty (pages (snd (unpin_page page_a False one_dirty)) ! 0)"
proof -
  have b: "map_of (page_table one_pinned) page_a = Some 0" "0 < length (pages one_pinned)"
    "0 < pin_count (pages one_pinned ! 0)" "\<not> is_dirty (pages one_pinned ! 0)"
    by (simp_all add: one_pinned_eval)
  have c: "0 < length (pages one_dirty)" "is_dirty (pages one_dirty ! 0)"
    by (simp_all add: one_dirty_eval)
  show ?thesis
    using unpin_page_dirty_monotonic[of one_pinned page_a 0 0 False]
      unpin_page_dirty_monotonic[of one_dirty page_a 0 0 False] b c
    by simp
qed

text \<open>
  Claim C6. \<open>flush_page\<close> returns false exactly when \<open>pid\<close> is not resident or its
  page number is the invalid sentinel, and then the state is unchanged. Otherwise,
  whatever the pin counter and the dirty flag are, it writes the frame's bytes at \<open>pid\<close>,
  clears the dirty flag and returns true. A second flush right after the first
  writes the same bytes again and leaves the flag cleared.
\<close>

theorem flush_page_contract:
  "(fst (flush_page pid s) = False \<longleftrightarrow>
      (map_of (page_table s) pid = None \<or> page_no pid = INVALID_PAGE_ID))
   \<and> (fst (flush_page pid s) = False \<longrightarrow> snd (flush_page pid s) = s)
   \<and> (map_of (page_table s) pid = Some f \<and> f < length (pages s) \<and> page_no pid \<noteq> INVALID_PAGE_ID \<longrightarrow>
        fst (flush_page pid s) = True
        \<and> disk_manager (snd (flush_page pid s)) =
            write_page (disk_manager s) (fd pid) (page_no pid) (data (pages s ! f))
        \<and> io_log (disk_manager (snd (flush_page pid s))) =
            io_log (disk_manager s) @ [WritePage (fd pid) (page_no pid) (data (pages s ! f))]
        \<and> is_dirty (pages (snd (flush_page pid s)) ! f) = False
        \<and> data (pages (snd (flush_page pid s)) ! f) = data (pages s ! f)
        \<and> pin_count (pages (snd (flush_page pid s)) ! f) = pin_count (pages s ! f)
        \<and> page_table (snd (flush_page pid s)) = page_table s
        \<and> fst (flush_page pid (snd (flush_page pid s))) = True
        \<and> io_log (disk_manager (snd (flush_page pid (snd (flush_page pid s))))) =
            io_log (disk_manager s) @ [WritePage (fd pid) (page_no pid) (data (pages s ! f)),
                                       WritePage (fd pid) (page_no pid) (data (pages s ! f))]
        \<and> is_dirty (pages (snd (flush_page pid (snd (flush_page pid s)))) ! f) = False)"
  by (auto simp: flush_page_def Let_def write_page_def split: option.splits)

theorem flush_page_contract_witness:
  "map_of (page_table one_dirty) page_a = Some 0 \<and> 0 < length (pages one_dirty)
   \<and> page_no page_a \<noteq> INVALID_PAGE_ID \<and> is_dirty (pages one_dirty ! 0)
   \<and> fst (flush_page page_a one_dirty) = True
   \<and> io_log (disk_manager (snd (flush_page page_a one_dirty))) = [ReadPage 1 0, WritePage 1 0 stored_bytes]
   \<and> \<not> is_dirty (pages (snd (flush_page page_a one_dirty)) ! 0)
   \<and> io_log (disk_manager (snd (flush_page page_a (snd (flush_page page_a one_dirty))))) =
       [ReadPage 1 0, WritePage 1 0 stored_bytes, WritePage 1 0 stored_bytes]
   \<and> fst (flush_page page_b one_dirty) = False \<and> snd (flush_page page_b one_dirty) = one_dirty
   \<and> fst (flush_page sentinel_page sentinel_dirty) = False"
proof -
  have b: "map_of (page_table one_dirty) page_a = Some 0" "0 < length (pages one_dirty)"
    "page_no page_a \<noteq> INVALID_PAGE_ID" "is_dirty (pages one_dirty ! 0)"
    "map_of (page_table one_dirty) page_b = None"
    "fd page_a = 1" "page_no page_a = 0" "data (pages one_dirty ! 0) = stored_bytes"
    "io_log (disk_manager one_dirty) = [ReadPage 1 0]"
    "page_no sentinel_page = INVALID_PAGE_ID"
    by (simp_all add: one_dirty_eval pages_differ, simp_all add: page_a_def INVALID_PAGE_ID_def sentinel_page_def)
  show ?thesis
    using flush_page_contract[of page_a one_dirty 0] flush_page_contract[of page_b one_dirty 0]
      flush_page_contract[of sentinel_page sentinel_dirty 0] b
    by (simp add: write_page_def)
qed

text \<open>
  Claim C7. \<open>delete_page\<close> on an id that is not resident returns true and changes
  nothing; on a resident id whose frame is pinned it returns false and changes nothing;
  on a resident id whose frame is unpinned it returns true, writes the frame's bytes at
  the frame's identity (which is \<open>pid\<close> in every state of the pool) if the frame is
  dirty, erases the entry, resets the frame's bytes, tells the Eviction Policy that the
  frame is unpinned and appends the frame to the Free List.
\<close>

theorem delete_page_contract:
  "(map_of (page_table s) pid = None \<longrightarrow> delete_page pid s = (True, s))
   \<and> (map_of (page_table s) pid = Some f \<and> pin_count (pages s ! f) \<noteq> 0 \<longrightarrow>
        delete_page pid s = (False, s))
   \<and> (map_of (page_table s) pid = Some f \<and> f < length (pages s) \<and> pin_count (pages s ! f) = 0 \<longrightarrow>
        fst (delete_page pid s) = True
        \<and> disk_manager (snd (delete_page pid s)) =
            (if is_dirty (pages s ! f)
             then write_page (disk_manager s) (fd (page_id (pages s ! f)))
                    (page_no (page_id (pages s ! f))) (data (pages s ! f))
             else disk_manager s)
        \<and> (bpm_inv s \<longrightarrow> page_id (pages s ! f) = pid)
        \<and> page_table (snd (delete_page pid s)) = AList.delete pid (page_table s)
        \<and> map_of (page_table (snd (delete_page pid s))) pid = None
        \<and> data (pages (snd (delete_page pid s)) ! f) = replicate PAGE_SIZE 0
        \<and> pin_count (pages (snd (delete_page pid s)) ! f) = 0
        \<and> replacer (snd (delete_page pid s)) = unpin (replacer s) f
        \<and> free_list (snd (delete_page pid s)) = free_list s @ [f])"
proof (intro conjI impI)
  show "delete_page pid s = (True, s)" if "map_of (page_table s) pid = None"
    using that by (simp add: delete_page_def)
  show "delete_page pid s = (False, s)"
    if "map_of (page_table s) pid = Some f \<and> pin_count (pages s ! f) \<noteq> 0"
    using that by (simp add: delete_page_def)
next
  assume h: "map_of (page_table s) pid = Some f \<and> f < length (pages s) \<and> pin_count (pages s ! f) = 0"
  show "page_id (pages s ! f) = pid" if "bpm_inv s"
    using inv_entry[OF that map_of_SomeD, of pid f] h by simp
  show "fst (delete_page pid s) = True"
    and "disk_manager (snd (delete_page pid s)) =
            (if is_dirty (pages s ! f)
             then write_page (disk_manager s) (fd (page_id (pages s ! f)))
                    (page_no (page_id (pages s ! f))) (data (pages s ! f))
             else disk_manager s)"
    and "page_table (snd (delete_page pid s)) = AList.delete pid (page_table s)"
    and "map_of (page_table (snd (delete_page pid s))) pid = None"
    and "data (pages (snd (delete_page pid s)) ! f) = replicate PAGE_SIZE 0"
    and "pin_count (pages (snd (delete_page pid s)) ! f) = 0"
    and "replacer (snd (delete_page pid s)) = unpin (replacer s) f"
    and "free_list (snd (delete_page pid s)) = free_list s @ [f]"
    using h by (simp_all add: delete_page_def Let_def reset_memory_def delete_conv')
qed

theorem delete_page_contract_witness:
  "map_of (page_table one_dirty) page_b = None \<and> delete_page page_b one_dirty = (True, one_dirty)
   \<and> map_of (page_table one_pinned) page_a = Some 0 \<and> pin_count (pages one_pinned ! 0) \<noteq> 0
   \<and> delete_page page_a one_pinned = (False, one_pinned)
   \<and> map_of (page_table one_dirty) page_a = Some 0 \<and> 0 < length (pages one_dirty)
   \<and> pin_count (pages one_dirty ! 0) = 0 \<and> is_dirty (pages one_dirty ! 0) \<and> bpm_inv one_dirty
   \<and> fst (delete_page page_a one_dirty) = True
   \<and> io_log (disk_manager (snd (delete_page page_a one_dirty))) = [ReadPage 1 0, WritePage 1 0 stored_bytes]
   \<and> page_table (snd (delete_page page_a one_dirty)) = []
   \<and> data (pages (snd (delete_page page_a one_dirty)) ! 0) = replicate PAGE_SIZE 0
   \<and> free_list (snd (delete_page page_a one_dirty)) = [0]"
proof -
  have a: "map_of (page_table one_dirty) page_b = None"
    "map_of (page_table one_pinned) page_a = Some 0" "pin_count (pages one_pinned ! 0) \<noteq> 0"
    "map_of (page_table one_dirty) page_a = Some 0" "0 < length (pages one_dirty)"
    "pin_count (pages one_dirty ! 0) = 0" "is_dirty (pages one_dirty ! 0)"
    "page_id (pages one_dirty ! 0) = page_a" "data (pages one_dirty ! 0) = stored_bytes"
    "io_log (disk_manager one_dirty) = [ReadPage 1 0]" "page_table one_dirty = [(page_a, 0)]"
    "free_list one_dirty = []" "fd page_a = 1" "page_no page_a = 0"
    by (simp_all add: one_dirty_eval one_pinned_eval pages_differ, simp_all add: page_a_def)
  show ?thesis
    using delete_page_contract[of one_dirty page_b 0] delete_page_contract[of one_pinned page_a 0]
      delete_page_contract[of one_dirty page_a 0] a one_dirty_inv
    by (simp add: write_page_def)
qed

text \<open>
  Claim C10. \<open>new_page\<close> fails exactly when frame acquisition fails, that is when the
  Free List is empty and the Eviction Policy has no victim. A failed call returns the
  caller's \<open>PageId\<close> as it came in and the state as it was: no page number has been
  allocated. A successful call has allocated exactly one page number, after the frame
  was found, and returns it in the \<open>PageId\<close>.
\<close>

theorem new_page_exhausted:
  "(fst (new_page pid s) = None \<longleftrightarrow> free_list s = [] \<and> eligible (replacer s) = [])
   \<and> (fst (new_page pid s) = None \<longrightarrow> new_page pid s = (None, pid, s))
   \<and> (fst (new_page pid s) = Some f \<longrightarrow>
        fst (find_victim_page s) = Some f
        \<and> fst (snd (new_page pid s)) = pid\<lparr>page_no := next_page_no (disk_manager s) (fd pid)\<rparr>
        \<and> io_log (disk_manager (snd (snd (new_page pid s)))) =
            io_log (disk_manager s) @
              AllocatePage (fd pid) (next_page_no (disk_manager s) (fd pid)) #
              (if is_dirty (pages s ! f)
               then [WritePage (fd (page_id (pages s ! f))) (page_no (page_id (pages s ! f)))
                       (data (pages s ! f))]
               else []))"
  by (auto simp: new_page_def find_victim_page_def victim_def allocate_page_def write_page_def
      Let_def split_def split: list.splits)

theorem new_page_exhausted_witness:
  "fst (new_page sentinel_page one_pinned) = None
   \<and> new_page sentinel_page one_pinned = (None, sentinel_page, one_pinned)
   \<and> fst (new_page sentinel_page pool1) = Some 0
   \<and> fst (snd (new_page sentinel_page pool1)) = page_a
   \<and> io_log (disk_manager (snd (snd (new_page sentinel_page pool1)))) = [AllocatePage 1 0]"
proof -
  have a: "free_list one_pinned = []" "eligible (replacer one_pinned) = []"
    by (simp_all add: one_pinned_eval)
  have b: "fst (new_page sentinel_page pool1) = Some 0"
    by (simp add: new_page_def find_victim_page_def pool1_eval allocate_page_def split_def Let_def)
  have c: "fd sentinel_page = 1" "sentinel_page\<lparr>page_no := 0\<rparr> = page_a"
    "next_page_no (disk_manager pool1) 1 = 0" "io_log (disk_manager pool1) = []"
    "\<not> is_dirty (pages pool1 ! 0)"
    by (simp_all add: sentinel_page_def page_a_def pool1_eval empty_page_def)
  show ?thesis
    using new_page_exhausted[of sentinel_page one_pinned 0] new_page_exhausted[of sentinel_page pool1 0]
      a b c
    by simp
qed

lemma exhausted_no_victim:
  assumes inv: "bpm_inv s" and fl: "free_list s = []" and pinned: "\<forall>p \<in> set (pages s). 0 < pin_count p"
  shows "find_victim_page s = (None, s)"
proof -
  have "eligible (replacer s) = []"
  proof (cases "eligible (replacer s)")
    case (Cons f fs)
    then have mem: "f \<in> set (eligible (replacer s))" by simp
    from inv_eligible[OF inv mem] have "f < length (pages s)" "pin_count (pages s ! f) = 0" by simp_all
    moreover from this(1) pinned have "0 < pin_count (pages s ! f)" by simp
    ultimately show ?thesis by simp
  qed simp
  with fl have "fst (find_victim_page s) = None" by (simp add: find_victim_page_None)
  then show ?thesis by (rule find_victim_page_fail)
qed

lemma exhausted_fetch:
  assumes "bpm_inv s" and "free_list s = []" and "\<forall>p \<in> set (pages s). 0 < pin_count p"
    and "map_of (page_table s) pid = None"
  shows "fetch_page pid s = (None, s)"
  using exhausted_no_victim[OF assms(1-3)] assms(4) by (simp add: fetch_page_def)

lemma exhausted_new:
  assumes "bpm_inv s" and "free_list s = []" and "\<forall>p \<in> set (pages s). 0 < pin_count p"
  shows "new_page pid s = (None, pid, s)"
  using exhausted_no_victim[OF assms] by (simp add: new_page_def)

lemma exhausted_run:
  assumes "bpm_inv s" and "free_list s = []" and "\<forall>p \<in> set (pages s). 0 < pin_count p"
    and "\<forall>c \<in> set cs. (\<exists>q. c = New q) \<or> (\<exists>q. c = Fetch q \<and> map_of (page_table s) q = None)"
  shows "run cs s = s"
  using assms(4)
proof (induction cs)
  case Nil
  show ?case by simp
next
  case (Cons c cs)
  then have "perform c s = s"
    using exhausted_fetch[OF assms(1-3)] exhausted_new[OF assms(1-3)] by auto
  with Cons show ?case by simp
qed

lemma acquired_unpinned:
  assumes inv: "bpm_inv s" and fv: "fst (find_victim_page s) = Some f"
  shows "pin_count (pages s ! f) = 0"
proof -
  obtain s1 where "find_victim_page s = (Some f, s1)" using fv by (cases "find_victim_page s") simp
  from find_victim_page_Some(6)[OF inv this] show ?thesis .
qed

lemma fetch_page_miss_frame:
  "map_of (page_table s) pid = None \<Longrightarrow> fst (fetch_page pid s) = fst (find_victim_page s)"
  by (auto simp: fetch_page_def Let_def split_def split: prod.splits option.splits)

lemma new_page_frame: "fst (new_page pid s) = fst (find_victim_page s)"
  by (auto simp: new_page_def Let_def split_def split: prod.splits option.splits)

text \<open>
  Claim C8. In a state of the pool in which the Free List is empty and every frame is
  pinned (its pin counter is not 0, as every positive count is), \<open>fetch_page\<close> of an id that is not resident and \<open>new_page\<close> both return no
  frame and leave the state as it was, so that any sequence of such calls fails, call
  after call. In every state of the pool, a frame that \<open>fetch_page\<close> or \<open>new_page\<close>
  repurposes was unpinned before the call.
\<close>

theorem pool_exhaustion:
  "(bpm_inv s \<and> free_list s = [] \<and> (\<forall>p \<in> set (pages s). 0 < pin_count p) \<longrightarrow>
      (map_of (page_table s) pid = None \<longrightarrow> fetch_page pid s = (None, s))
      \<and> new_page pid s = (None, pid, s)
      \<and> ((\<forall>c \<in> set cs. (\<exists>q. c = New q) \<or> (\<exists>q. c = Fetch q \<and> map_of (page_table s) q = None)) \<longrightarrow>
           run cs s = s))
   \<and> (bpm_inv s \<and> map_of (page_table s) pid = None \<and> fst (fetch_page pid s) = Some f \<longrightarrow>
        pin_count (pages s ! f) = 0)
   \<and> (bpm_inv s \<and> fst (new_page pid s) = Some f \<longrightarrow> pin_count (pages s ! f) = 0)"
proof (intro conjI impI)
  assume h: "bpm_inv s \<and> free_list s = [] \<and> (\<forall>p \<in> set (pages s). 0 < pin_count p)"
  then have a: "bpm_inv s" and b: "free_list s = []" and c: "\<forall>p \<in> set (pages s). 0 < pin_count p"
    by simp_all
  show "fetch_page pid s = (None, s)" if "map_of (page_table s) pid = None"
    by (rule exhausted_fetch[OF a b c that])
  show "new_page pid s = (None, pid, s)" by (rule exhausted_new[OF a b c])
  show "run cs s = s"
    if "\<forall>c \<in> set cs. (\<exists>q. c = New q) \<or> (\<exists>q. c = Fetch q \<and> map_of (page_table s) q = None)"
    by (rule exhausted_run[OF a b c that])
next
  assume "bpm_inv s \<and> map_of (page_table s) pid = None \<and> fst (fetch_page pid s) = Some f"
  then show "pin_count (pages s ! f) = 0"
    using acquired_unpinned[of s f] fetch_page_miss_frame[of s pid] by simp
next
  assume "bpm_inv s \<and> fst (new_page pid s) = Some f"
  then show "pin_count (pages s ! f) = 0"
    using acquired_unpinned[of s f] new_page_frame[of pid s] by simp
qed

theorem pool_exhaustion_witness:
  "bpm_inv one_pinned \<and> free_list one_pinned = [] \<and> list_all (\<lambda>p. 0 < pin_count p) (pages one_pinned)
   \<and> map_of (page_table one_pinned) page_b = None
   \<and> fetch_page page_b one_pinned = (None, one_pinned)
   \<and> new_page page_b one_pinned = (None, page_b, one_pinned)
   \<and> run [New page_b, Fetch page_b, New page_b] one_pinned = one_pinned
   \<and> bpm_inv one_dirty \<and> map_of (page_table one_dirty) page_b = None
   \<and> fst (fetch_page page_b one_dirty) = Some 0 \<and> fst (new_page page_b one_dirty) = Some 0
   \<and> pin_count (pages one_dirty ! 0) = 0"
proof -
  have a: "free_list one_pinned = []" "\<forall>p \<in> set (pages one_pinned). 0 < pin_count p"
    "map_of (page_table one_pinned) page_b = None" "map_of (page_table one_dirty) page_b = None"
    by (simp_all add: one_pinned_eval one_dirty_eval pages_differ)
  have v: "fst (find_victim_page one_dirty) = Some 0"
    by (simp add: find_victim_page_def one_dirty_eval victim_def)
  have b: "fst (fetch_page page_b one_dirty) = Some 0" "fst (new_page page_b one_dirty) = Some 0"
    using v a(4) by (simp_all add: fetch_page_miss_frame new_page_frame)
  show ?thesis
    using pool_exhaustion[of one_pinned page_b "[New page_b, Fetch page_b, New page_b]" 0]
      pool_exhaustion[of one_dirty page_b "[]" 0]
      a b one_pinned_inv one_dirty_inv
    by (simp add: list_all_iff)
qed

text \<open>
  Claim C2. A new pool satisfies the invariant of the pool, each of the six public
  operations keeps it, and it makes the page table a bijection between the resident
  ids and the frames that host them: one entry per id, one id per frame. So the page
  table is such a bijection after every sequence of calls on a new pool.
\<close>

theorem page_table_bijection_invariant:
  "bpm_inv (new_pool n dm)
   \<and> (bpm_inv s \<longrightarrow>
        page_table_bijection s
        \<and> bpm_inv (snd (fetch_page pid s)) \<and> page_table_bijection (snd (fetch_page pid s))
        \<and> bpm_inv (snd (unpin_page pid dirty s)) \<and> page_table_bijection (snd (unpin_page pid dirty s))
        \<and> bpm_inv (snd (flush_page pid s)) \<and> page_table_bijection (snd (flush_page pid s))
        \<and> bpm_inv (snd (snd (new_page pid s))) \<and> page_table_bijection (snd (snd (new_page pid s)))
        \<and> bpm_inv (snd (delete_page pid s)) \<and> page_table_bijection (snd (delete_page pid s))
        \<and> bpm_inv (flush_all_pages file s) \<and> page_table_bijection (flush_all_pages file s))
   \<and> page_table_bijection (run cs (new_pool n dm))"
  by (simp add: new_pool_inv inv_bijection fetch_page_inv unpin_page_inv flush_page_inv new_page_inv
      delete_page_inv flush_all_pages_inv run_inv)

theorem page_table_bijection_invariant_witness:
  "bpm_inv one_dirty
   \<and> page_table_bijection one_dirty
   \<and> page_table_bijection (snd (fetch_page page_b one_dirty))
   \<and> page_table (snd (fetch_page page_b one_dirty)) = [(page_b, 0)]
   \<and> page_table_bijection (snd (snd (new_page sentinel_page one_dirty)))
   \<and> page_table_bijection (snd (delete_page page_a one_dirty))
   \<and> page_table_bijection (run [New sentinel_page, Unpin page_a True, Fetch page_b] (new_pool 1 new_disk))"
proof -
  have "page_table (snd (fetch_page page_b one_dirty)) = [(page_b, 0)]"
    by (simp add: one_dirty_eval fetch_page_def find_victim_page_def victim_def update_page_def
        write_page_def read_page_def reset_memory_def pin_def pages_differ page_a_def Let_def split_def)
  then show ?thesis
    using page_table_bijection_invariant[of 1 new_disk one_dirty page_b True 1
        "[New sentinel_page, Unpin page_a True, Fetch page_b]"]
      page_table_bijection_invariant[of 1 new_disk one_dirty sentinel_page True 1 "[]"]
      page_table_bijection_invariant[of 1 new_disk one_dirty page_a True 1 "[]"]
      one_dirty_inv
    by simp
qed

lemma flush_page_frame:
  "page_table (snd (flush_page pid s)) = page_table s"
  "free_list (snd (flush_page pid s)) = free_list s"
  "replacer (snd (flush_page pid s)) = replacer s"
  "length (pages (snd (flush_page pid s))) = length (pages s)"
  by (auto simp: flush_page_def Let_def split: option.splits)

lemma upd_same_field:
  assumes "h p = h (xs ! f)"
  shows "h (xs[f := p] ! g) = h (xs ! g)"
proof (cases "f = g")
  case True
  show ?thesis
  proof (cases "f < length xs")
    case True
    with \<open>f = g\<close> assms show ?thesis by simp
  next
    case False
    then show ?thesis by (simp add: list_update_beyond)
  qed
next
  case False
  then show ?thesis by simp
qed

lemma flush_page_keeps:
  "data (pages (snd (flush_page pid s)) ! g) = data (pages s ! g)"
  "pin_count (pages (snd (flush_page pid s)) ! g) = pin_count (pages s ! g)"
  "page_id (pages (snd (flush_page pid s)) ! g) = page_id (pages s ! g)"
  by (auto simp: flush_page_def Let_def upd_same_field split: option.splits)

lemma flush_each_frame:
  "page_table (flush_each es s) = page_table s"
  "free_list (flush_each es s) = free_list s"
  "replacer (flush_each es s) = replacer s"
  "length (pages (flush_each es s)) = length (pages s)"
  by (induction es arbitrary: s) (simp_all add: flush_page_frame)

lemma flush_each_keeps:
  "data (pages (flush_each es s) ! g) = data (pages s ! g)"
  "pin_count (pages (flush_each es s) ! g) = pin_count (pages s ! g)"
  "page_id (pages (flush_each es s) ! g) = page_id (pages s ! g)"
  by (induction es arbitrary: s) (simp_all add: flush_page_keeps)

lemma flush_each_log:
  assumes "\<forall>e \<in> set es. map_of (page_table s) (fst e) = Some (snd e)"
  shows "io_log (disk_manager (flush_each es s)) = io_log (disk_manager s) @ writes_of s es"
  using assms
proof (induction es arbitrary: s)
  case Nil
  show ?case by (simp add: writes_of_def)
next
  case (Cons e es)
  let ?s1 = "snd (flush_page (fst e) s)"
  have res: "map_of (page_table s) (fst e) = Some (snd e)" using Cons.prems by simp
  have "\<forall>x \<in> set es. map_of (page_table ?s1) (fst x) = Some (snd x)"
    using Cons.prems by (simp add: flush_page_frame)
  then have "io_log (disk_manager (flush_each es ?s1)) = io_log (disk_manager ?s1) @ writes_of ?s1 es"
    by (rule Cons.IH)
  moreover have "writes_of ?s1 es = writes_of s es"
    by (simp add: writes_of_def flush_page_keeps)
  moreover have "io_log (disk_manager ?s1) = io_log (disk_manager s) @ writes_of s [e]"
    using res by (simp add: flush_page_def Let_def write_page_def writes_of_def)
  ultimately show ?case by (simp add: writes_of_def)
qed

lemma flush_page_dirty:
  assumes "map_of (page_table s) pid = Some f" and "f < length (pages s)"
  shows "is_dirty (pages (snd (flush_page pid s)) ! g) =
           (is_dirty (pages s ! g) \<and> \<not> (g = f \<and> page_no pid \<noteq> INVALID_PAGE_ID))"
  using assms by (cases "g = f") (simp_all add: flush_page_def Let_def)

lemma flush_each_dirty:
  assumes "\<forall>e \<in> set es. map_of (page_table s) (fst e) = Some (snd e) \<and> snd e < length (pages s)"
  shows "is_dirty (pages (flush_each es s) ! g) =
           (is_dirty (pages s ! g) \<and> g \<notin> snd ` {e \<in> set es. page_no (fst e) \<noteq> INVALID_PAGE_ID})"
  using assms
proof (induction es arbitrary: s)
  case Nil
  show ?case by simp
next
  case (Cons e es)
  let ?s1 = "snd (flush_page (fst e) s)"
  have res: "map_of (page_table s) (fst e) = Some (snd e)" "snd e < length (pages s)"
    using Cons.prems by simp_all
  have "\<forall>x \<in> set es. map_of (page_table ?s1) (fst x) = Some (snd x) \<and> snd x < length (pages ?s1)"
    using Cons.prems by (simp add: flush_page_frame)
  then have "is_dirty (pages (flush_each es ?s1) ! g) =
      (is_dirty (pages ?s1 ! g) \<and> g \<notin> snd ` {x \<in> set es. page_no (fst x) \<noteq> INVALID_PAGE_ID})"
    by (rule Cons.IH)
  then show ?case using flush_page_dirty[OF res, of g] by auto
qed

lemma inv_lookup:
  assumes "bpm_inv s" and "e \<in> set (page_table s)"
  shows "map_of (page_table s) (fst e) = Some (snd e) \<and> snd e < length (pages s)
         \<and> page_id (pages s ! snd e) = fst e"
  using inv_keys[OF assms(1)] inv_entry[OF assms(1), of "fst e" "snd e"] assms(2) by simp

text \<open>
  Claim C9, as the code has it. \<open>flush_all_pages\<close> calls \<open>flush_page\<close> on every id of the
  page table and ignores its file argument. Every resident page whose page number is
  not the invalid sentinel is written back once, with the bytes of its frame, whether
  dirty or not, and its dirty flag is cleared. A resident id that carries the sentinel
  page number is skipped by the guard of \<open>flush_page\<close>: nothing is written for it and
  its dirty flag stays. Nothing else changes, and nothing is returned.
\<close>

theorem flush_all_pages_effect:
  assumes "bpm_inv s"
  shows "io_log (disk_manager (flush_all_pages file s)) =
           io_log (disk_manager s) @
             map (\<lambda>e. WritePage (fd (fst e)) (page_no (fst e)) (data (pages s ! snd e)))
               (filter (\<lambda>e. page_no (fst e) \<noteq> INVALID_PAGE_ID) (page_table s))
       \<and> (\<forall>e \<in> set (page_table s). page_no (fst e) \<noteq> INVALID_PAGE_ID \<longrightarrow>
             \<not> is_dirty (pages (flush_all_pages file s) ! snd e))
       \<and> (\<forall>e \<in> set (page_table s). page_no (fst e) = INVALID_PAGE_ID \<longrightarrow>
             is_dirty (pages (flush_all_pages file s) ! snd e) = is_dirty (pages s ! snd e))
       \<and> flush_all_pages file s = flush_all_pages file' s
       \<and> page_table (flush_all_pages file s) = page_table s
       \<and> free_list (flush_all_pages file s) = free_list s
       \<and> replacer (flush_all_pages file s) = replacer s
       \<and> map data (pages (flush_all_pages file s)) = map data (pages s)
       \<and> map pin_count (pages (flush_all_pages file s)) = map pin_count (pages s)
       \<and> map page_id (pages (flush_all_pages file s)) = map page_id (pages s)"
proof -
  let ?s' = "flush_each (page_table s) s"
  have look: "\<forall>e \<in> set (page_table s). map_of (page_table s) (fst e) = Some (snd e) \<and> snd e < length (pages s)"
    using inv_lookup[OF assms] by blast
  have dirty: "is_dirty (pages ?s' ! g) =
      (is_dirty (pages s ! g) \<and> g \<notin> snd ` {e \<in> set (page_table s). page_no (fst e) \<noteq> INVALID_PAGE_ID})" for g
    by (rule flush_each_dirty[OF look])
  have log: "io_log (disk_manager ?s') = io_log (disk_manager s) @ writes_of s (page_table s)"
    by (rule flush_each_log) (use look in blast)
  have valid: "\<not> is_dirty (pages ?s' ! snd e)"
    if "e \<in> set (page_table s)" "page_no (fst e) \<noteq> INVALID_PAGE_ID" for e
    using that by (auto simp: dirty)
  have skipped: "is_dirty (pages ?s' ! snd e) = is_dirty (pages s ! snd e)"
    if e: "e \<in> set (page_table s)" and sent: "page_no (fst e) = INVALID_PAGE_ID" for e
  proof -
    have "snd e \<notin> snd ` {x \<in> set (page_table s). page_no (fst x) \<noteq> INVALID_PAGE_ID}"
    proof
      assume "snd e \<in> snd ` {x \<in> set (page_table s). page_no (fst x) \<noteq> INVALID_PAGE_ID}"
      then obtain x where x: "x \<in> set (page_table s)" "page_no (fst x) \<noteq> INVALID_PAGE_ID" "snd x = snd e"
        by auto
      from inv_lookup[OF assms x(1)] inv_lookup[OF assms e] x(3) have "fst x = fst e" by simp
      with x(2) sent show False by simp
    qed
    then show ?thesis by (simp add: dirty)
  qed
  have same: "map h (pages ?s') = map h (pages s)" if "\<And>g. h (pages ?s' ! g) = h (pages s ! g)" for h :: "Page \<Rightarrow> 'a"
    by (rule nth_equalityI) (simp_all add: flush_each_frame that)
  show ?thesis
    unfolding flush_all_pages_def
    using log valid skipped same[of data] same[of pin_count] same[of page_id]
    by (simp add: flush_each_frame flush_each_keeps writes_of_def)
qed

theorem flush_all_pages_effect_witness:
  "bpm_inv one_dirty \<and> is_dirty (pages one_dirty ! 0)
   \<and> io_log (disk_manager (flush_all_pages 2 one_dirty)) = [ReadPage 1 0, WritePage 1 0 stored_bytes]
   \<and> \<not> is_dirty (pages (flush_all_pages 2 one_dirty) ! 0)
   \<and> bpm_inv sentinel_dirty
   \<and> is_dirty (pages (flush_all_pages 1 sentinel_dirty) ! 0)"
proof -
  have a: "page_table one_dirty = [(page_a, 0)]" "page_no page_a \<noteq> INVALID_PAGE_ID"
    "fd page_a = 1" "page_no page_a = 0" "data (pages one_dirty ! 0) = stored_bytes"
    "io_log (disk_manager one_dirty) = [ReadPage 1 0]" "is_dirty (pages one_dirty ! 0)"
    by (simp_all add: one_dirty_eval, simp_all add: page_a_def INVALID_PAGE_ID_def)
  have b: "bpm_inv sentinel_dirty" "page_table sentinel_dirty = [(sentinel_page, 0)]"
    "page_no sentinel_page = INVALID_PAGE_ID" "is_dirty (pages sentinel_dirty ! 0)"
    by (simp_all add: bpm_inv_def sentinel_dirty_eval, simp add: sentinel_page_def)
  show ?thesis
    using flush_all_pages_effect[OF one_dirty_inv, of 2 2] flush_all_pages_effect[OF b(1), of 1 1]
      a b one_dirty_inv
    by simp
qed

text \<open>
  The claim as stated fails for a resident id with the sentinel page number: the page
  below is resident and dirty, and \<open>flush_all_pages\<close> writes nothing and leaves it dirty.
\<close>

theorem flush_all_pages_sentinel_counterexample:
  "map_of (page_table sentinel_dirty) sentinel_page = Some 0
   \<and> is_dirty (pages sentinel_dirty ! 0)
   \<and> is_dirty (pages (flush_all_pages 1 sentinel_dirty) ! 0)
   \<and> io_log (disk_manager (flush_all_pages 1 sentinel_dirty)) = io_log (disk_manager sentinel_dirty)
   \<and> flush_all_pages 1 sentinel_dirty = sentinel_dirty"
  by (simp add: flush_all_pages_def sentinel_dirty_eval flush_page_def, simp add: sentinel_page_def)

text \<open>
  What a miss of \<open>fetch_page\<close> sends to the Persistent Store: the bytes of the frame it
  acquired, once and at the frame's old identity, when that frame is dirty, and then
  the read of the new page; the frame is clean afterwards. The source of the frame
  plays no part in it. And \<open>delete_page\<close> releases a frame with the dirty flag it had.
\<close>

lemma find_victim_page_keeps:
  "pages (snd (find_victim_page s)) = pages s"
  "disk_manager (snd (find_victim_page s)) = disk_manager s"
  by (auto simp: find_victim_page_def victim_def split: list.splits)

lemma fetch_page_miss_io:
  assumes "map_of (page_table s) pid = None" and "fst (find_victim_page s) = Some f"
    and "f < length (pages s)"
  shows "io_log (disk_manager (snd (fetch_page pid s))) =
           io_log (disk_manager s) @
             (if is_dirty (pages s ! f)
              then [WritePage (fd (page_id (pages s ! f))) (page_no (page_id (pages s ! f)))
                      (data (pages s ! f))]
              else []) @
             [ReadPage (fd pid) (page_no pid)]"
    and "\<not> is_dirty (pages (snd (fetch_page pid s)) ! f)"
proof -
  obtain s1 where fv: "find_victim_page s = (Some f, s1)"
    using assms(2) by (cases "find_victim_page s") simp
  have k: "pages s1 = pages s" "disk_manager s1 = disk_manager s"
    using find_victim_page_keeps[of s] fv by simp_all
  show "io_log (disk_manager (snd (fetch_page pid s))) =
           io_log (disk_manager s) @
             (if is_dirty (pages s ! f)
              then [WritePage (fd (page_id (pages s ! f))) (page_no (page_id (pages s ! f)))
                      (data (pages s ! f))]
              else []) @
             [ReadPage (fd pid) (page_no pid)]"
    using assms(1) by (simp add: fetch_page_def fv k update_page_fields read_page_def write_page_def
        Let_def split_def)
  show "\<not> is_dirty (pages (snd (fetch_page pid s)) ! f)"
    using assms(1,3) by (simp add: fetch_page_def fv k update_page_fields read_page_def Let_def split_def)
qed

lemma delete_page_keeps_dirty:
  assumes "map_of (page_table s) pid = Some f" and "f < length (pages s)"
    and "pin_count (pages s ! f) = 0"
  shows "is_dirty (pages (snd (delete_page pid s)) ! f) = is_dirty (pages s ! f)"
    and "f \<in> set (free_list (snd (delete_page pid s)))"
  using assms by (simp_all add: delete_page_def Let_def reset_memory_def)

text \<open>
  Claim C1, at the input where the code departs from it. Page \<open>(1, 0)\<close> is fetched
  into the only frame, unpinned as dirty and deleted: \<open>delete_page\<close> writes its bytes back
  and puts the frame on the Free List, but leaves the frame's dirty flag set. The next
  \<open>fetch_page\<close> takes that frame from the Free List, finds it dirty, and writes the
  frame's bytes, which \<open>delete_page\<close> has reset, over the stored page \<open>(1, 0)\<close>.
\<close>

theorem free_frame_written_back:
  "free_list one_deleted = [0]
   \<and> is_dirty (pages one_deleted ! 0)
   \<and> io_log (disk_manager one_deleted) = [ReadPage 1 0, WritePage 1 0 stored_bytes]
   \<and> fst (fetch_page page_b one_deleted) = Some 0
   \<and> io_log (disk_manager (snd (fetch_page page_b one_deleted))) =
       [ReadPage 1 0, WritePage 1 0 stored_bytes, WritePage 1 0 (replicate PAGE_SIZE 0), ReadPage 1 1]
   \<and> contents (disk_manager (snd (fetch_page page_b one_deleted))) (1, 0) = Some (replicate PAGE_SIZE 0)
   \<and> stored_bytes \<noteq> replicate PAGE_SIZE 0"
  by (simp add: one_deleted_eval fetch_page_def find_victim_page_def update_page_def write_page_def
      read_page_def reset_memory_def page_a_def page_b_def stored_bytes_def PAGE_SIZE_def)

end
